theory Spec2Isabelle
  imports Main "HOL-Library.Char_ord" "HOL-Library.List_Lexorder" "HOL-Library.Finite_Map"
begin

section \<open>Evacuation planner: data model\<close>

text \<open>
  Node identifiers are JavaScript strings. They are modelled as \<open>string\<close> with the
  lexicographic order on character codes, which is the order the default
  \<^verbatim>\<open>Array.prototype.sort\<close> compares strings by. The \<^verbatim>\<open>Set\<close> objects are sets. The
  objects the program uses as dictionaries (\<^verbatim>\<open>NODES\<close>, \<^verbatim>\<open>ADJACENCY\<close>,
  \<^verbatim>\<open>HAZARD_PRESETS\<close>, \<^verbatim>\<open>state.hazardTypes\<close>) are plain objects: maps over their own
  keys, which inherit the members of \<^verbatim>\<open>Object.prototype\<close>.
\<close>

type_synonym node_id = string

record node =
  nlabel :: string
  nfloor :: string
  ntype :: string

text \<open>A preset: the nodes and the edges it blocks (its free-text description is only logged).\<close>

record preset =
  nodes :: "node_id list"
  edges :: "(node_id \<times> node_id) list"

text \<open>The read-only dataset of \<^verbatim>\<open>buildingGraph.js\<close>: the globals the planner reads.\<close>

record store =
  NODES :: "(node_id, node) fmap"
  ADJACENCY :: "(node_id, node_id list) fmap"
  EXITS :: "node_id set"
  START_NODE :: node_id
  HAZARD_PRESETS :: "(string, preset) fmap"

section \<open>Plain objects\<close>

text \<open>The one error the modelled statements can raise.\<close>

datatype error = TypeError

text \<open>
  The property names every plain object inherits from \<^verbatim>\<open>Object.prototype\<close>. Each
  inherited value is a function, or for \<^verbatim>\<open>__proto__\<close> the prototype object: truthy,
  not iterable, and without a \<^verbatim>\<open>toUpperCase\<close>, \<^verbatim>\<open>label\<close> or \<^verbatim>\<open>nodes\<close> member.
\<close>

definition proto_members :: "string set" where
  "proto_members =
     {''constructor'', ''hasOwnProperty'', ''isPrototypeOf'', ''propertyIsEnumerable'',
      ''toLocaleString'', ''toString'', ''valueOf'', ''__proto__'',
      ''__defineGetter__'', ''__defineSetter__'', ''__lookupGetter__'', ''__lookupSetter__''}"

text \<open>
  A property read \<^verbatim>\<open>obj[key]\<close>: the object's own value, else the inherited member,
  else \<^verbatim>\<open>undefined\<close>.
\<close>

datatype 'a property = Own 'a | Inherited | Missing

definition get_property :: "(string \<rightharpoonup> 'a) \<Rightarrow> string \<Rightarrow> 'a property" where
  "get_property obj key =
     (case obj key of
        Some v \<Rightarrow> Own v
      | None \<Rightarrow> if key \<in> proto_members then Inherited else Missing)"

text \<open>
  An assignment \<^verbatim>\<open>obj[key] = value\<close> of a string: it creates or updates the own key,
  except that for \<^verbatim>\<open>__proto__\<close>, when the object has no such own key, the inherited
  setter runs and ignores a value that is no object.
\<close>

definition set_property :: "(string \<rightharpoonup> string) \<Rightarrow> string \<Rightarrow> string \<Rightarrow> (string \<rightharpoonup> string)" where
  "set_property obj key v =
     (if key = ''__proto__'' \<and> obj key = None then obj else obj(key \<mapsto> v))"

text \<open>
  The global \<^verbatim>\<open>state\<close> object. The builder canvas, the floor filter and the interval
  handle of the timer play no part in the planner and are left out.
\<close>

record state =
  hazardNodes :: "node_id set"
  hazardEdges :: "string set"
  hazardTypes :: "node_id \<rightharpoonup> string"
  selectedHazard :: string
  currentPath :: "node_id list option"
  evacuationFailed :: bool
  timerSeconds :: nat
  timerRunning :: bool

section \<open>Edge keys\<close>

text \<open>\<^verbatim>\<open>Array.prototype.join\<close>: the elements, with the separator between neighbours.\<close>

fun join :: "string \<Rightarrow> string list \<Rightarrow> string" where
  "join sep [] = []"
| "join sep [x] = x"
| "join sep (x # y # ys) = x @ sep @ join sep (y # ys)"

text \<open>\<^verbatim>\<open>return [a, b].sort().join('::');\<close>\<close>

definition edgeKey :: "node_id \<Rightarrow> node_id \<Rightarrow> string" where
  "edgeKey a b = join ''::'' (sort [a, b])"

section \<open>Breadth-first search\<close>

text \<open>
  \<^verbatim>\<open>const neighbors = adjacency[current] || []; for (const neighbor of neighbors)\<close>:
  the node's own list; the empty list when the object has nothing for the node; and a
  \<^verbatim>\<open>TypeError\<close> when the node is named like an inherited member, which is truthy and
  cannot be iterated.
\<close>

definition neighbors :: "(node_id, node_id list) fmap \<Rightarrow> node_id \<Rightarrow> error + node_id list" where
  "neighbors adjacency current =
     (case get_property (fmlookup adjacency) current of
        Own ns \<Rightarrow> Inr ns
      | Inherited \<Rightarrow> Inl TypeError
      | Missing \<Rightarrow> Inr [])"

text \<open>
  The body of \<^verbatim>\<open>for (const neighbor of neighbors)\<close>: the three \<^verbatim>\<open>continue\<close> tests in
  the order of the source, then the neighbour is marked visited and its path is pushed at
  the back of the queue.
\<close>

fun expand :: "node_id list \<Rightarrow> node_id \<Rightarrow> node_id set \<Rightarrow> string set \<Rightarrow> node_id list \<Rightarrow>
    node_id set \<times> node_id list list \<Rightarrow> node_id set \<times> node_id list list" where
  "expand path current blockedNodes blockedEdges [] (visited, queue) = (visited, queue)"
| "expand path current blockedNodes blockedEdges (neighbor # rest) (visited, queue) =
     (if neighbor \<in> visited then
        expand path current blockedNodes blockedEdges rest (visited, queue)
      else if neighbor \<in> blockedNodes then
        expand path current blockedNodes blockedEdges rest (visited, queue)
      else if edgeKey current neighbor \<in> blockedEdges then
        expand path current blockedNodes blockedEdges rest (visited, queue)
      else
        expand path current blockedNodes blockedEdges rest
          (insert neighbor visited, queue @ [path @ [neighbor]]))"

text \<open>
  Every node that can ever be pushed occurs in some neighbour list of the adjacency
  object; there are finitely many of them, which bounds the loop.
\<close>

definition listed :: "(node_id, node_id list) fmap \<Rightarrow> node_id set" where
  "listed adjacency = (\<Union>ns \<in> fmran' adjacency. set ns)"

definition bfs_measure ::
    "(node_id, node_id list) fmap \<Rightarrow> node_id set \<times> node_id list list \<Rightarrow> nat" where
  "bfs_measure adjacency vq = 2 * card (listed adjacency - fst vq) + length (snd vq)"

lemma finite_listed: "finite (listed adjacency)"
  unfolding listed_def fmran'_alt_def by simp

lemma neighbors_listed:
  assumes "neighbors adjacency current = Inr ns"
  shows "set ns \<subseteq> listed adjacency"
proof (cases "fmlookup adjacency current")
  case None
  with assms show ?thesis
    by (simp add: neighbors_def get_property_def split: if_splits)
next
  case (Some ms)
  then have "ms \<in> fmran' adjacency" by (rule fmran'I)
  moreover from Some assms have "ns = ms" by (simp add: neighbors_def get_property_def)
  ultimately show ?thesis by (auto simp: listed_def)
qed

lemma expand_measure:
  "set ns \<subseteq> listed adjacency \<Longrightarrow>
   bfs_measure adjacency (expand path current bn be ns vq) \<le> bfs_measure adjacency vq"
proof (induction ns arbitrary: vq)
  case Nil
  then show ?case by (cases vq) simp
next
  case (Cons n ns)
  obtain visited queue where vq: "vq = (visited, queue)" by (cases vq)
  from Cons.prems have n: "n \<in> listed adjacency" and ns: "set ns \<subseteq> listed adjacency"
    by auto
  show ?case
  proof (cases "n \<in> visited \<or> n \<in> bn \<or> edgeKey current n \<in> be")
    case True
    then show ?thesis using Cons.IH [OF ns, of vq] by (auto simp: vq)
  next
    case False
    then have nv: "n \<notin> visited" by simp
    have "listed adjacency - insert n visited \<subset> listed adjacency - visited"
      using n nv by auto
    then have "card (listed adjacency - insert n visited)
        < card (listed adjacency - visited)"
      using finite_listed [of adjacency] by (intro psubset_card_mono) auto
    then have "bfs_measure adjacency (insert n visited, queue @ [path @ [n]])
        \<le> bfs_measure adjacency (visited, queue)"
      by (simp add: bfs_measure_def)
    moreover have "expand path current bn be (n # ns) vq
        = expand path current bn be ns (insert n visited, queue @ [path @ [n]])"
      using False by (simp add: vq)
    ultimately show ?thesis
      using Cons.IH [OF ns, of "(insert n visited, queue @ [path @ [n]])"] by (simp add: vq)
  qed
qed

text \<open>
  The \<^verbatim>\<open>while (queue.length > 0)\<close> loop: \<^verbatim>\<open>queue.shift()\<close> takes the first path,
  \<^verbatim>\<open>path[path.length - 1]\<close> is its last node. A returned path is \<open>Inr (Some path)\<close>,
  \<^verbatim>\<open>null\<close> is \<open>Inr None\<close>, a raised error is \<open>Inl\<close>. Every path in the queue holds at
  least the start node.
\<close>

function bfs_loop :: "(node_id, node_id list) fmap \<Rightarrow> node_id set \<Rightarrow> node_id set \<Rightarrow>
    string set \<Rightarrow> node_id set \<times> node_id list list \<Rightarrow> error + node_id list option" where
  "bfs_loop adjacency exits blockedNodes blockedEdges (visited, []) = Inr None"
| "bfs_loop adjacency exits blockedNodes blockedEdges (visited, path # queue) =
     (let current = last path in
      if current \<in> exits then Inr (Some path)
      else
        (case neighbors adjacency current of
           Inl e \<Rightarrow> Inl e
         | Inr ns \<Rightarrow>
             bfs_loop adjacency exits blockedNodes blockedEdges
               (expand path current blockedNodes blockedEdges ns (visited, queue))))"
  by pat_completeness auto
termination
proof (relation "measure (\<lambda>(adjacency, exits, bn, be, vq). bfs_measure adjacency vq)")
  show "wf (measure (\<lambda>(adjacency, exits, bn, be, vq). bfs_measure adjacency vq))"
    by simp
next
  fix adjacency :: "(node_id, node_id list) fmap"
  fix exits blockedNodes :: "node_id set" and blockedEdges :: "string set"
  fix visited :: "node_id set" and path :: "node_id list" and queue :: "node_id list list"
  fix current :: node_id and ns :: "node_id list"
  assume "current = last path" "current \<notin> exits"
    and ns: "neighbors adjacency current = Inr ns"
  have "bfs_measure adjacency (expand path current blockedNodes blockedEdges ns
          (visited, queue))
      \<le> bfs_measure adjacency (visited, queue)"
    by (rule expand_measure [OF neighbors_listed [OF ns]])
  also have "\<dots> < bfs_measure adjacency (visited, path # queue)"
    by (simp add: bfs_measure_def)
  finally show "((adjacency, exits, blockedNodes, blockedEdges,
        expand path current blockedNodes blockedEdges ns (visited, queue)),
       (adjacency, exits, blockedNodes, blockedEdges, visited, path # queue))
      \<in> measure (\<lambda>(adjacency, exits, bn, be, vq). bfs_measure adjacency vq)"
    by simp
qed

text \<open>
  \<^verbatim>\<open>bfsEvacuate(graph, adjacency, exits, start, blockedNodes, blockedEdges)\<close>; the
  first argument (\<^verbatim>\<open>NODES\<close> or \<^verbatim>\<open>null\<close>) is never read.
\<close>

definition bfsEvacuate :: "(node_id, node) fmap option \<Rightarrow> (node_id, node_id list) fmap \<Rightarrow>
    node_id set \<Rightarrow> node_id \<Rightarrow> node_id set \<Rightarrow> string set \<Rightarrow> error + node_id list option" where
  "bfsEvacuate graph adjacency exits start blockedNodes blockedEdges =
     (if start \<in> blockedNodes then Inr None
      else bfs_loop adjacency exits blockedNodes blockedEdges ({start}, [[start]]))"

section \<open>Alternative routes\<close>

text \<open>
  The nodes \<^verbatim>\<open>prevPath[j]\<close> for \<^verbatim>\<open>j = 1, ..., prevPath.length - 2\<close>, in this order.
\<close>

definition interior :: "node_id list \<Rightarrow> node_id list" where
  "interior prevPath = take (length prevPath - 2) (drop 1 prevPath)"

text \<open>
  The inner loop of \<^verbatim>\<open>findAlternativePaths\<close> over the interior nodes still to try:
  the result is the first alternative whose key \<^verbatim>\<open>alt.join('->')\<close> is new, or \<open>None\<close>
  when the loop ends with \<^verbatim>\<open>found\<close> still false. An error of the search ends it.
\<close>

fun try_blocking :: "(node_id, node_id list) fmap \<Rightarrow> node_id set \<Rightarrow> node_id \<Rightarrow> node_id set \<Rightarrow>
    string set \<Rightarrow> string set \<Rightarrow> node_id list \<Rightarrow> error + node_id list option" where
  "try_blocking adjacency exits start blockedNodes blockedEdges usedPaths [] = Inr None"
| "try_blocking adjacency exits start blockedNodes blockedEdges usedPaths (n # rest) =
     (case bfsEvacuate None adjacency exits start (insert n blockedNodes) blockedEdges of
        Inl e \<Rightarrow> Inl e
      | Inr None \<Rightarrow>
          try_blocking adjacency exits start blockedNodes blockedEdges usedPaths rest
      | Inr (Some alt) \<Rightarrow>
          if join ''->'' alt \<notin> usedPaths then Inr (Some alt)
          else try_blocking adjacency exits start blockedNodes blockedEdges usedPaths rest)"

text \<open>The outer loop \<^verbatim>\<open>for (let i = 1; i < count; i++)\<close>, with its \<^verbatim>\<open>break\<close>.\<close>

function alt_loop :: "(node_id, node_id list) fmap \<Rightarrow> node_id set \<Rightarrow> node_id \<Rightarrow> node_id set \<Rightarrow>
    string set \<Rightarrow> int \<Rightarrow> nat \<Rightarrow> node_id list list \<Rightarrow> string set \<Rightarrow>
    error + node_id list list" where
  "alt_loop adjacency exits start blockedNodes blockedEdges count i paths usedPaths =
     (if int i < count then
        (case try_blocking adjacency exits start blockedNodes blockedEdges usedPaths
                (interior (paths ! (i - 1))) of
           Inl e \<Rightarrow> Inl e
         | Inr None \<Rightarrow> Inr paths
         | Inr (Some alt) \<Rightarrow>
             alt_loop adjacency exits start blockedNodes blockedEdges count (i + 1)
               (paths @ [alt]) (insert (join ''->'' alt) usedPaths))
      else Inr paths)"
  by pat_completeness auto
termination
  by (relation "measure (\<lambda>(adjacency, exits, start, bn, be, count, i, paths, used).
        nat (count - int i))") auto

declare alt_loop.simps [simp del]

definition findAlternativePaths :: "(node_id, node_id list) fmap \<Rightarrow> node_id set \<Rightarrow> node_id \<Rightarrow>
    node_id set \<Rightarrow> string set \<Rightarrow> int \<Rightarrow> error + node_id list list" where
  "findAlternativePaths adjacency exits start blockedNodes blockedEdges count =
     (case bfsEvacuate None adjacency exits start blockedNodes blockedEdges of
        Inl e \<Rightarrow> Inl e
      | Inr None \<Rightarrow> Inr []
      | Inr (Some optimal) \<Rightarrow>
          alt_loop adjacency exits start blockedNodes blockedEdges count 1
            [optimal] {join ''->'' optimal})"

section \<open>Hazard management\<close>

text \<open>
  The operations change the global \<^verbatim>\<open>state\<close>, recompute the route and redraw the page.
  The state is passed in and returned. An operation that raises leaves the state as
  changed so far: \<open>Raised\<close> carries that state, \<open>Done\<close> the state of a normal return.
  The elements of the page are taken to be there; what is written into them (log,
  toasts, map, lists, timer display) is not modelled.
\<close>

datatype outcome = Done state | Raised error state

fun state_of :: "outcome \<Rightarrow> state" where
  "state_of (Done s) = s"
| "state_of (Raised e s) = s"

fun raises :: "outcome \<Rightarrow> bool" where
  "raises (Done s) = False"
| "raises (Raised e s) = True"

text \<open>The next statements run only after a normal return.\<close>

fun and_then :: "outcome \<Rightarrow> (state \<Rightarrow> outcome) \<Rightarrow> outcome" where
  "and_then (Done s) f = f s"
| "and_then (Raised e s) f = Raised e s"

text \<open>
  \<^verbatim>\<open>_recalculate\<close> stores the route and whether the search failed (\<^verbatim>\<open>!path\<close>), then
  calls \<^verbatim>\<open>renderRoutePanel\<close>, which for a found route computes
  \<^verbatim>\<open>findAlternativePaths(ADJACENCY, EXITS, START_NODE, ..., 3)\<close> before it draws.
\<close>

definition recalculate :: "store \<Rightarrow> state \<Rightarrow> outcome" where
  "recalculate G s =
     (case bfsEvacuate (Some (NODES G)) (ADJACENCY G) (EXITS G) (START_NODE G)
             (hazardNodes s) (hazardEdges s) of
        Inl e \<Rightarrow> Raised e s
      | Inr path \<Rightarrow>
          (let s' = s\<lparr>currentPath := path, evacuationFailed := (path = None)\<rparr> in
           if path = None then Done s'
           else
             (case findAlternativePaths (ADJACENCY G) (EXITS G) (START_NODE G)
                     (hazardNodes s') (hazardEdges s') 3 of
                Inl e \<Rightarrow> Raised e s'
              | Inr alts \<Rightarrow> Done s')))"

text \<open>
  \<^verbatim>\<open>applyHazard\<close>: the label \<^verbatim>\<open>NODES[nodeId]?.label || nodeId\<close> of the log line falls
  back to the id for an unknown or inherited name, and \<^verbatim>\<open>type\<close> is a string, so the
  log line raises nothing.
\<close>

definition applyHazard :: "store \<Rightarrow> node_id \<Rightarrow> string \<Rightarrow> state \<Rightarrow> outcome" where
  "applyHazard G nodeId type s =
     recalculate G
       (s\<lparr>hazardNodes := insert nodeId (hazardNodes s),
          hazardTypes := set_property (hazardTypes s) nodeId type\<rparr>)"

text \<open>
  \<^verbatim>\<open>removeHazard\<close> reads \<^verbatim>\<open>state.hazardTypes[nodeId]\<close> first, deletes the id from the set
  and the own key from the object, and then builds its log line with
  \<^verbatim>\<open>type ? ' [' + type.toUpperCase() + ']' : ''\<close>: an own kind is a string, a missing
  one is \<^verbatim>\<open>undefined\<close>, and an inherited member is truthy and has no
  \<^verbatim>\<open>toUpperCase\<close>, which raises before \<^verbatim>\<open>_recalculate\<close> is reached.
\<close>

definition removeHazard :: "store \<Rightarrow> node_id \<Rightarrow> state \<Rightarrow> outcome" where
  "removeHazard G nodeId s =
     (let type = get_property (hazardTypes s) nodeId;
          s' = s\<lparr>hazardNodes := hazardNodes s - {nodeId},
                 hazardTypes := (hazardTypes s)(nodeId := None)\<rparr>
      in case type of
           Inherited \<Rightarrow> Raised TypeError s'
         | Own kind \<Rightarrow> recalculate G s'
         | Missing \<Rightarrow> recalculate G s')"

definition toggleHazard :: "store \<Rightarrow> node_id \<Rightarrow> state \<Rightarrow> outcome" where
  "toggleHazard G nodeId s =
     (if nodeId = START_NODE G then Done s
      else if nodeId \<in> hazardNodes s then removeHazard G nodeId s
      else applyHazard G nodeId (selectedHazard s) s)"

text \<open>\<^verbatim>\<open>resetAll\<close> also stops the timer and sets its seconds to zero.\<close>

definition resetAll :: "store \<Rightarrow> state \<Rightarrow> outcome" where
  "resetAll G s =
     recalculate G
       (s\<lparr>hazardNodes := {}, hazardEdges := {}, hazardTypes := Map.empty,
          timerRunning := False, timerSeconds := 0\<rparr>)"

definition block_node :: "node_id \<Rightarrow> state \<Rightarrow> state" where
  "block_node n s =
     s\<lparr>hazardNodes := insert n (hazardNodes s),
       hazardTypes := set_property (hazardTypes s) n ''fire''\<rparr>"

definition block_edge :: "node_id \<times> node_id \<Rightarrow> state \<Rightarrow> state" where
  "block_edge e s = s\<lparr>hazardEdges := insert (edgeKey (fst e) (snd e)) (hazardEdges s)\<rparr>"

text \<open>
  \<^verbatim>\<open>applyPreset\<close>: a name with no preset returns at once (\<^verbatim>\<open>if (!preset) return\<close>). A
  name that only an inherited member answers to passes that test, the state is reset,
  and \<^verbatim>\<open>preset.nodes.forEach\<close> raises, since the member has no \<^verbatim>\<open>nodes\<close>. For a
  preset of the table the state is reset, the two \<^verbatim>\<open>forEach\<close> loops block the preset's
  nodes and edges, and the route is recomputed.
\<close>

definition applyPreset :: "store \<Rightarrow> string \<Rightarrow> state \<Rightarrow> outcome" where
  "applyPreset G presetName s =
     (case get_property (fmlookup (HAZARD_PRESETS G)) presetName of
        Missing \<Rightarrow> Done s
      | Inherited \<Rightarrow> and_then (resetAll G s) (\<lambda>s'. Raised TypeError s')
      | Own preset \<Rightarrow>
          and_then (resetAll G s)
            (\<lambda>s'. recalculate G
               (fold block_edge (edges preset) (fold block_node (nodes preset) s'))))"

text \<open>The state the script starts with.\<close>

definition initial_state :: state where
  "initial_state =
     \<lparr>hazardNodes = {}, hazardEdges = {}, hazardTypes = Map.empty,
      selectedHazard = ''fire'', currentPath = None, evacuationFailed = False,
      timerSeconds = 0, timerRunning = False\<rparr>"

text \<open>The invariant of the hazard state: the ids with a recorded kind are the blocked ids.\<close>

definition kinds_match :: "state \<Rightarrow> bool" where
  "kinds_match s = (dom (hazardTypes s) = hazardNodes s)"

section \<open>The building dataset\<close>

definition building_nodes :: "(node_id, node) fmap" where
  "building_nodes = fmap_of_list [
     (''Parking'', \<lparr>nlabel = ''Parking'', nfloor = ''B1'', ntype = ''room''\<rparr>),
     (''Electrical'', \<lparr>nlabel = ''Electrical Room'', nfloor = ''B1'', ntype = ''room''\<rparr>),
     (''Generator'', \<lparr>nlabel = ''Generator Room'', nfloor = ''B1'', ntype = ''room''\<rparr>),
     (''StairB'', \<lparr>nlabel = ''Stairwell B'', nfloor = ''B1'', ntype = ''stair''\<rparr>),
     (''EmergencyExit'', \<lparr>nlabel = ''Emergency Exit'', nfloor = ''B1'', ntype = ''exit''\<rparr>),
     (''Entrance'', \<lparr>nlabel = ''Entrance'', nfloor = ''GF'', ntype = ''room''\<rparr>),
     (''Reception'', \<lparr>nlabel = ''Reception'', nfloor = ''GF'', ntype = ''room''\<rparr>),
     (''Hall'', \<lparr>nlabel = ''Main Hall'', nfloor = ''GF'', ntype = ''corridor''\<rparr>),
     (''Control'', \<lparr>nlabel = ''Control Room'', nfloor = ''GF'', ntype = ''control''\<rparr>),
     (''KitchenG'', \<lparr>nlabel = ''Kitchen (GF)'', nfloor = ''GF'', ntype = ''room''\<rparr>),
     (''WashG'', \<lparr>nlabel = ''Washroom (GF)'', nfloor = ''GF'', ntype = ''room''\<rparr>),
     (''StairG'', \<lparr>nlabel = ''Stairwell G'', nfloor = ''GF'', ntype = ''stair''\<rparr>),
     (''ExitA'', \<lparr>nlabel = ''Exit A'', nfloor = ''GF'', ntype = ''exit''\<rparr>),
     (''ExitB'', \<lparr>nlabel = ''Exit B'', nfloor = ''GF'', ntype = ''exit''\<rparr>),
     (''Lobby1'', \<lparr>nlabel = ''Lobby 1'', nfloor = ''F1'', ntype = ''corridor''\<rparr>),
     (''R101'', \<lparr>nlabel = ''Room 101'', nfloor = ''F1'', ntype = ''room''\<rparr>),
     (''R102'', \<lparr>nlabel = ''Room 102'', nfloor = ''F1'', ntype = ''room''\<rparr>),
     (''Office'', \<lparr>nlabel = ''Office'', nfloor = ''F1'', ntype = ''room''\<rparr>),
     (''Wash1'', \<lparr>nlabel = ''Washroom (F1)'', nfloor = ''F1'', ntype = ''room''\<rparr>),
     (''Storage'', \<lparr>nlabel = ''Storage'', nfloor = ''F1'', ntype = ''room''\<rparr>),
     (''Stair1'', \<lparr>nlabel = ''Stairwell 1'', nfloor = ''F1'', ntype = ''stair''\<rparr>),
     (''Lobby2'', \<lparr>nlabel = ''Lobby 2'', nfloor = ''F2'', ntype = ''corridor''\<rparr>),
     (''R201'', \<lparr>nlabel = ''Room 201'', nfloor = ''F2'', ntype = ''room''\<rparr>),
     (''R202'', \<lparr>nlabel = ''Room 202'', nfloor = ''F2'', ntype = ''room''\<rparr>),
     (''Kitchen2'', \<lparr>nlabel = ''Kitchen (F2)'', nfloor = ''F2'', ntype = ''room''\<rparr>),
     (''Wash2'', \<lparr>nlabel = ''Washroom (F2)'', nfloor = ''F2'', ntype = ''room''\<rparr>),
     (''Server'', \<lparr>nlabel = ''Server Room'', nfloor = ''F2'', ntype = ''room''\<rparr>),
     (''Stair2'', \<lparr>nlabel = ''Stairwell 2'', nfloor = ''F2'', ntype = ''stair''\<rparr>),
     (''Lobby3'', \<lparr>nlabel = ''Lobby 3'', nfloor = ''F3'', ntype = ''corridor''\<rparr>),
     (''R301'', \<lparr>nlabel = ''Room 301'', nfloor = ''F3'', ntype = ''room''\<rparr>),
     (''R302'', \<lparr>nlabel = ''Room 302'', nfloor = ''F3'', ntype = ''room''\<rparr>),
     (''R303'', \<lparr>nlabel = ''Room 303'', nfloor = ''F3'', ntype = ''room''\<rparr>),
     (''Wash3'', \<lparr>nlabel = ''Washroom (F3)'', nfloor = ''F3'', ntype = ''room''\<rparr>),
     (''Balcony3'', \<lparr>nlabel = ''Balcony'', nfloor = ''F3'', ntype = ''room''\<rparr>),
     (''Stair3'', \<lparr>nlabel = ''Stairwell 3'', nfloor = ''F3'', ntype = ''stair''\<rparr>)
   ]"

definition building_adjacency :: "(node_id, node_id list) fmap" where
  "building_adjacency = fmap_of_list [
     (''Parking'', [''Electrical'', ''Generator'', ''StairB'', ''EmergencyExit'']),
     (''Electrical'', [''Parking'']),
     (''Generator'', [''Parking'']),
     (''StairB'', [''Parking'', ''StairG'']),
     (''EmergencyExit'', [''Parking'']),
     (''Entrance'', [''Reception'']),
     (''Reception'', [''Entrance'', ''Hall'']),
     (''Hall'', [''Reception'', ''Control'', ''KitchenG'', ''WashG'', ''StairG'', ''ExitA'', ''ExitB'']),
     (''Control'', [''Hall'']),
     (''KitchenG'', [''Hall'']),
     (''WashG'', [''Hall'']),
     (''StairG'', [''Hall'', ''Stair1'', ''StairB'']),
     (''ExitA'', [''Hall'']),
     (''ExitB'', [''Hall'']),
     (''Lobby1'', [''R101'', ''R102'', ''Office'', ''Wash1'', ''Storage'', ''Stair1'']),
     (''R101'', [''Lobby1'']),
     (''R102'', [''Lobby1'']),
     (''Office'', [''Lobby1'']),
     (''Wash1'', [''Lobby1'']),
     (''Storage'', [''Lobby1'']),
     (''Stair1'', [''Lobby1'', ''StairG'', ''Stair2'']),
     (''Lobby2'', [''R201'', ''R202'', ''Kitchen2'', ''Wash2'', ''Server'', ''Stair2'']),
     (''R201'', [''Lobby2'']),
     (''R202'', [''Lobby2'']),
     (''Kitchen2'', [''Lobby2'']),
     (''Wash2'', [''Lobby2'']),
     (''Server'', [''Lobby2'']),
     (''Stair2'', [''Lobby2'', ''Stair1'', ''Stair3'']),
     (''Lobby3'', [''R301'', ''R302'', ''R303'', ''Wash3'', ''Balcony3'', ''Stair3'']),
     (''R301'', [''Lobby3'']),
     (''R302'', [''Lobby3'']),
     (''R303'', [''Lobby3'']),
     (''Wash3'', [''Lobby3'']),
     (''Balcony3'', [''Lobby3'']),
     (''Stair3'', [''Lobby3'', ''Stair2''])
   ]"

definition building_presets :: "(string, preset) fmap" where
  "building_presets = fmap_of_list [
     (''Ground Floor Fire'', \<lparr>nodes = [''Hall'', ''KitchenG''], edges = []\<rparr>),
     (''Exit A Blocked'', \<lparr>nodes = [''ExitA''], edges = []\<rparr>),
     (''Full Lockdown'', \<lparr>nodes = [''ExitA'', ''ExitB'', ''EmergencyExit''], edges = []\<rparr>),
     (''Stairwell Fire'', \<lparr>nodes = [''StairG'', ''Stair1''], edges = []\<rparr>),
     (''Smoke on F2'', \<lparr>nodes = [''Lobby2'', ''Server'', ''Kitchen2''], edges = []\<rparr>)
   ]"

definition building :: store where
  "building =
     \<lparr>NODES = building_nodes, ADJACENCY = building_adjacency,
      EXITS = {''ExitA'', ''ExitB'', ''EmergencyExit''}, START_NODE = ''Control'',
      HAZARD_PRESETS = building_presets\<rparr>"

section \<open>Two small graphs\<close>



text \<open>
  A graph with a node named \<^verbatim>\<open>constructor\<close> that has no neighbour list of its own: the
  search from \<open>S\<close> finds the exit \<open>X\<close> over \<open>A\<close>, and reaches the named node once \<open>A\<close>
  is blocked.
\<close>

definition named_like_member :: "(node_id, node_id list) fmap" where
  "named_like_member = fmap_of_list
     [(''S'', [''A'', ''B'']), (''A'', [''X'']), (''B'', [''constructor''])]"

section \<open>Routes\<close>

text \<open>
  The neighbour list the adjacency object itself holds for a node (none counts as empty).
\<close>

definition own_neighbors :: "(node_id, node_id list) fmap \<Rightarrow> node_id \<Rightarrow> node_id list" where
  "own_neighbors adjacency u = (case fmlookup adjacency u of None \<Rightarrow> [] | Some ns \<Rightarrow> ns)"

text \<open>
  One step of the search from \<open>u\<close> to \<open>v\<close>: \<open>v\<close> is listed as a neighbour of \<open>u\<close>, is not
  blocked, and the key of the edge is not blocked.
\<close>

definition step_ok :: "(node_id, node_id list) fmap \<Rightarrow> node_id set \<Rightarrow> string set \<Rightarrow>
    node_id \<Rightarrow> node_id \<Rightarrow> bool" where
  "step_ok adjacency blockedNodes blockedEdges u v =
     (v \<in> set (own_neighbors adjacency u) \<and> v \<notin> blockedNodes \<and> edgeKey u v \<notin> blockedEdges)"

text \<open>A walk from the start node: a non-empty list of nodes, each step of it allowed.\<close>

definition walk :: "(node_id, node_id list) fmap \<Rightarrow> node_id set \<Rightarrow> string set \<Rightarrow>
    node_id \<Rightarrow> node_id list \<Rightarrow> bool" where
  "walk adjacency blockedNodes blockedEdges start w =
     (w \<noteq> [] \<and> hd w = start \<and> successively (step_ok adjacency blockedNodes blockedEdges) w)"

text \<open>
  A valid route under the hazards: it starts at the start node, ends in an exit, no node
  of it is blocked, and every consecutive pair is adjacent by an edge that is not blocked.
  It need not be free of repetitions; a route in the sense of the data model is a valid
  route that is \<open>distinct\<close>.
\<close>

definition valid_route :: "(node_id, node_id list) fmap \<Rightarrow> node_id set \<Rightarrow> node_id \<Rightarrow>
    node_id set \<Rightarrow> string set \<Rightarrow> node_id list \<Rightarrow> bool" where
  "valid_route adjacency exits start blockedNodes blockedEdges route =
     (route \<noteq> [] \<and> hd route = start \<and> last route \<in> exits \<and>
      (\<forall>n \<in> set route. n \<notin> blockedNodes) \<and>
      successively (\<lambda>u v. v \<in> set (own_neighbors adjacency u) \<and> edgeKey u v \<notin> blockedEdges) route)"

text \<open>\<^verbatim>\<open>const hops = path.length - 1;\<close>: the number of edges of a path.\<close>

definition hops :: "node_id list \<Rightarrow> nat" where
  "hops path = length path - 1"

text \<open>
  The dataset is consistent when every id it mentions is a node of \<^verbatim>\<open>NODES\<close>: the
  start node, the exits, the keys of \<^verbatim>\<open>ADJACENCY\<close> and the neighbours it lists.
\<close>

definition store_consistent :: "store \<Rightarrow> bool" where
  "store_consistent G =
     (START_NODE G \<in> fmdom' (NODES G) \<and>
      EXITS G \<subseteq> fmdom' (NODES G) \<and>
      fmdom' (ADJACENCY G) \<subseteq> fmdom' (NODES G) \<and>
      (\<forall>k \<in> fmdom' (ADJACENCY G). set (own_neighbors (ADJACENCY G) k) \<subseteq> fmdom' (NODES G)))"

text \<open>The route \<^verbatim>\<open>_recalculate\<close> computes for a hazard state.\<close>

definition route_under :: "store \<Rightarrow> state \<Rightarrow> error + node_id list option" where
  "route_under G s =
     bfsEvacuate (Some (NODES G)) (ADJACENCY G) (EXITS G) (START_NODE G)
       (hazardNodes s) (hazardEdges s)"


section \<open>Invariants of the search\<close>

text \<open>The neighbours that one run of the inner loop pushes, in order.\<close>

fun accepted :: "node_id \<Rightarrow> node_id set \<Rightarrow> string set \<Rightarrow> node_id list \<Rightarrow> node_id set \<Rightarrow>
    node_id list" where
  "accepted u bn be [] V = []"
| "accepted u bn be (n # ns) V =
     (if n \<in> V \<or> n \<in> bn \<or> edgeKey u n \<in> be then accepted u bn be ns V
      else n # accepted u bn be ns (insert n V))"

text \<open>Every queued path is a walk without repetition through visited nodes.\<close>

definition sound_queue :: "(node_id, node_id list) fmap \<Rightarrow> node_id set \<Rightarrow> string set \<Rightarrow>
    node_id \<Rightarrow> node_id set \<Rightarrow> node_id list list \<Rightarrow> bool" where
  "sound_queue adjacency bn be start V Q =
     (\<forall>q \<in> set Q. walk adjacency bn be start q \<and> set q \<subseteq> V \<and> distinct q)"

text \<open>
  The queue holds paths of at most two consecutive lengths, shortest first; every walk
  no longer than the first queued path ends in a visited node; every queued path is a
  shortest walk to its last node; and a visited node that is not the end of a queued
  path is no exit and has all its successors visited.
\<close>

definition shortest_queue :: "(node_id, node_id list) fmap \<Rightarrow> node_id set \<Rightarrow> node_id set \<Rightarrow>
    string set \<Rightarrow> node_id \<Rightarrow> node_id set \<Rightarrow> node_id list list \<Rightarrow> bool" where
  "shortest_queue adjacency exits bn be start V Q =
     ((\<forall>q \<in> set Q. q \<noteq> []) \<and>
      sorted (map length Q) \<and>
      (\<forall>q \<in> set Q. length q \<le> Suc (length (hd Q))) \<and>
      (Q \<noteq> [] \<longrightarrow>
         (\<forall>w. walk adjacency bn be start w \<and> length w \<le> length (hd Q) \<longrightarrow> last w \<in> V)) \<and>
      (\<forall>q \<in> set Q. \<forall>w. walk adjacency bn be start w \<and> last w = last q \<longrightarrow>
         length q \<le> length w) \<and>
      (\<forall>v \<in> V. (\<exists>q \<in> set Q. last q = v) \<or>
         (v \<notin> exits \<and> (\<forall>x. step_ok adjacency bn be v x \<longrightarrow> x \<in> V))))"


section \<open>Properties of the search\<close>

lemma neighbors_own:
  "neighbors adjacency u = Inr ns \<Longrightarrow> ns = own_neighbors adjacency u"
  by (auto simp: neighbors_def own_neighbors_def get_property_def
      split: option.splits if_splits)

lemma expand_accepted:
  "expand path u bn be ns (V, Q) =
     (V \<union> set (accepted u bn be ns V), Q @ map (\<lambda>n. path @ [n]) (accepted u bn be ns V))"
  by (induction ns arbitrary: V Q) simp_all

lemma accepted_sound:
  "n \<in> set (accepted u bn be ns V) \<Longrightarrow>
   n \<in> set ns \<and> n \<notin> V \<and> n \<notin> bn \<and> edgeKey u n \<notin> be"
proof (induction ns arbitrary: V)
  case Nil
  then show ?case by simp
next
  case (Cons m ns)
  show ?case
  proof (cases "m \<in> V \<or> m \<in> bn \<or> edgeKey u m \<in> be")
    case True
    with Cons.prems have "n \<in> set (accepted u bn be ns V)" by simp
    from Cons.IH [OF this] show ?thesis by simp
  next
    case False
    with Cons.prems have "n = m \<or> n \<in> set (accepted u bn be ns (insert m V))" by simp
    then show ?thesis
    proof
      assume "n = m"
      with False show ?thesis by simp
    next
      assume "n \<in> set (accepted u bn be ns (insert m V))"
      from Cons.IH [OF this] show ?thesis by simp
    qed
  qed
qed

lemma accepted_complete:
  "n \<in> set ns \<Longrightarrow> n \<notin> bn \<Longrightarrow> edgeKey u n \<notin> be \<Longrightarrow>
   n \<in> V \<union> set (accepted u bn be ns V)"
proof (induction ns arbitrary: V)
  case Nil
  then show ?case by simp
next
  case (Cons m ns)
  show ?case
  proof (cases "n = m")
    case True
    with Cons.prems show ?thesis by simp
  next
    case False
    with Cons.prems have n: "n \<in> set ns" by simp
    from Cons.IH [OF n Cons.prems(2,3), of V] Cons.IH [OF n Cons.prems(2,3), of "insert m V"]
    show ?thesis by (cases "m \<in> V \<or> m \<in> bn \<or> edgeKey u m \<in> be") auto
  qed
qed

lemma valid_route_walk:
  "valid_route adjacency exits start bn be r \<longleftrightarrow>
   start \<notin> bn \<and> last r \<in> exits \<and> walk adjacency bn be start r"
proof -
  have "(\<forall>n \<in> set r. n \<notin> bn) \<and>
      successively (\<lambda>u v. v \<in> set (own_neighbors adjacency u) \<and> edgeKey u v \<notin> be) r
    \<longleftrightarrow> (r \<noteq> [] \<longrightarrow> hd r \<notin> bn) \<and> successively (step_ok adjacency bn be) r"
  proof (induction r rule: induct_list012)
    case 1
    show ?case by simp
  next
    case (2 x)
    show ?case by simp
  next
    case (3 x y zs)
    then show ?case by (simp add: step_ok_def) blast
  qed
  then show ?thesis unfolding valid_route_def walk_def by (cases r) auto
qed

lemma walk_snoc:
  "walk adjacency bn be start p \<Longrightarrow> step_ok adjacency bn be (last p) n \<Longrightarrow>
   walk adjacency bn be start (p @ [n])"
  by (simp add: walk_def successively_append_iff)

lemma sound_queue_step:
  assumes "sound_queue adjacency bn be start V (p # rest)"
    and nb: "neighbors adjacency (last p) = Inr ns"
  shows "sound_queue adjacency bn be start
           (V \<union> set (accepted (last p) bn be ns V))
           (rest @ map (\<lambda>n. p @ [n]) (accepted (last p) bn be ns V))"
proof -
  let ?A = "accepted (last p) bn be ns V"
  from assms have p: "walk adjacency bn be start p" "set p \<subseteq> V" "distinct p"
    and rest: "\<forall>q \<in> set rest. walk adjacency bn be start q \<and> set q \<subseteq> V \<and> distinct q"
    by (simp_all add: sound_queue_def)
  have new: "walk adjacency bn be start (p @ [n]) \<and> set (p @ [n]) \<subseteq> V \<union> set ?A
      \<and> distinct (p @ [n])" if "n \<in> set ?A" for n
  proof -
    from accepted_sound [OF that] neighbors_own [OF nb]
    have st: "step_ok adjacency bn be (last p) n" and nV: "n \<notin> V"
      by (simp_all add: step_ok_def)
    have "walk adjacency bn be start (p @ [n])" using p(1) st by (rule walk_snoc)
    moreover have "set (p @ [n]) \<subseteq> V \<union> set ?A" using p(2) that by auto
    moreover have "distinct (p @ [n])" using p(2,3) nV by auto
    ultimately show ?thesis by simp
  qed
  show ?thesis
    unfolding sound_queue_def
  proof
    fix q
    assume "q \<in> set (rest @ map (\<lambda>n. p @ [n]) ?A)"
    then consider "q \<in> set rest" | n where "n \<in> set ?A" "q = p @ [n]" by auto
    then show "walk adjacency bn be start q \<and> set q \<subseteq> V \<union> set ?A \<and> distinct q"
    proof cases
      case 1
      with rest show ?thesis by blast
    next
      case 2
      with new [of n] show ?thesis by blast
    qed
  qed
qed

lemma bfs_loop_sound:
  "sound_queue adjacency bn be start (fst vq) (snd vq) \<Longrightarrow>
   bfs_loop adjacency exits bn be vq = Inr (Some r) \<Longrightarrow>
   walk adjacency bn be start r \<and> distinct r \<and> last r \<in> exits"
proof (induction adjacency exits bn be vq rule: bfs_loop.induct)
  case (1 adjacency exits bn be V)
  then show ?case by simp
next
  case (2 adjacency exits bn be V p rest)
  show ?case
  proof (cases "last p \<in> exits")
    case True
    with "2.prems" show ?thesis by (simp add: sound_queue_def)
  next
    case False
    from "2.prems"(2) False obtain ns where nb: "neighbors adjacency (last p) = Inr ns"
      by (cases "neighbors adjacency (last p)") simp_all
    let ?vq = "(V \<union> set (accepted (last p) bn be ns V),
      rest @ map (\<lambda>n. p @ [n]) (accepted (last p) bn be ns V))"
    have ex: "expand p (last p) bn be ns (V, rest) = ?vq" by (rule expand_accepted)
    from "2.prems"(2) False nb have res: "bfs_loop adjacency exits bn be ?vq = Inr (Some r)"
      by (simp add: ex Let_def)
    from "2.prems"(1) have "sound_queue adjacency bn be start V (p # rest)" by simp
    from sound_queue_step [OF this nb]
    have "sound_queue adjacency bn be start (fst ?vq) (snd ?vq)" by simp
    from "2.IH" [OF refl False nb, unfolded ex, OF this res] show ?thesis .
  qed
qed

lemma sorted_hd_least:
  "sorted (map length Q) \<Longrightarrow> q \<in> set Q \<Longrightarrow> length (hd Q) \<le> length q"
  by (cases Q) auto

lemma walk_butlast:
  assumes "walk adjacency bn be start w" and "2 \<le> length w"
  shows "walk adjacency bn be start (butlast w)"
    and "step_ok adjacency bn be (last (butlast w)) (last w)"
proof -
  from assms(2) have ne: "w \<noteq> []" "butlast w \<noteq> []"
    by (auto simp: butlast_conv_take)
  have w: "w = butlast w @ [last w]" using ne(1) by simp
  from assms(1) have "hd w = start" "successively (step_ok adjacency bn be) w"
    by (simp_all add: walk_def)
  then have "hd (butlast w @ [last w]) = start"
    "successively (step_ok adjacency bn be) (butlast w @ [last w])"
    using w by simp_all
  then show "walk adjacency bn be start (butlast w)"
    and "step_ok adjacency bn be (last (butlast w)) (last w)"
    using ne(2) by (simp_all add: walk_def successively_append_iff)
qed

lemma shortest_queue_step:
  assumes inv: "shortest_queue adjacency exits bn be start V (p # rest)"
    and nex: "last p \<notin> exits"
    and nb: "neighbors adjacency (last p) = Inr ns"
  shows "shortest_queue adjacency exits bn be start
           (V \<union> set (accepted (last p) bn be ns V))
           (rest @ map (\<lambda>n. p @ [n]) (accepted (last p) bn be ns V))"
proof -
  let ?A = "accepted (last p) bn be ns V"
  let ?V = "V \<union> set ?A"
  let ?Q = "rest @ map (\<lambda>n. p @ [n]) ?A"
  let ?walk = "walk adjacency bn be start"
  note inv' = inv [unfolded shortest_queue_def]
  from inv' have ne: "p \<noteq> []" "\<forall>q \<in> set rest. q \<noteq> []" by simp_all
  from inv' have srt: "sorted (map length rest)" "\<forall>q \<in> set rest. length p \<le> length q"
    by simp_all
  from inv' have bnd: "\<forall>q \<in> set rest. length q \<le> Suc (length p)" by simp
  have v2: "last w \<in> V" if "?walk w" "length w \<le> length p" for w
    using inv' that by simp
  have v3: "length q \<le> length w" if "q \<in> set (p # rest)" "?walk w" "last w = last q"
    for q w
  proof -
    from inv' have "\<forall>q \<in> set (p # rest). \<forall>w. ?walk w \<and> last w = last q \<longrightarrow>
        length q \<le> length w"
      by (elim conjE)
    from bspec [OF this that(1)] that(2,3) show ?thesis by simp
  qed
  have v6: "(\<exists>q \<in> set (p # rest). last q = v) \<or>
      (v \<notin> exits \<and> (\<forall>x. step_ok adjacency bn be v x \<longrightarrow> x \<in> V))" if "v \<in> V" for v
  proof -
    from inv' have "\<forall>v \<in> V. (\<exists>q \<in> set (p # rest). last q = v) \<or>
        (v \<notin> exits \<and> (\<forall>x. step_ok adjacency bn be v x \<longrightarrow> x \<in> V))"
      by (elim conjE)
    with that show ?thesis by blast
  qed
  have fresh: "n \<notin> V" if "n \<in> set ?A" for n
    using accepted_sound [OF that] by simp
  have succ: "x \<in> ?V" if "step_ok adjacency bn be (last p) x" for x
    using that accepted_complete [of x ns bn "last p" be V] neighbors_own [OF nb]
    by (simp add: step_ok_def)
  have range: "q \<noteq> [] \<and> length p \<le> length q \<and> length q \<le> Suc (length p)"
    if "q \<in> set ?Q" for q
  proof -
    from that consider "q \<in> set rest" | n where "q = p @ [n]" by auto
    then show ?thesis
    proof cases
      case 1
      with ne(2) srt(2) bnd show ?thesis by blast
    next
      case 2
      then show ?thesis by simp
    qed
  qed
  have sorted': "sorted (map length ?Q)"
  proof -
    have "map length (map (\<lambda>n. p @ [n]) ?A) = replicate (length ?A) (Suc (length p))"
      by (simp add: map_replicate_const comp_def)
    then show ?thesis using srt(1) bnd by (simp add: sorted_append)
  qed
  have bound': "length q \<le> Suc (length (hd ?Q))" if "q \<in> set ?Q" for q
  proof -
    from that have "?Q \<noteq> []" by auto
    then have "hd ?Q \<in> set ?Q" by (rule hd_in_set)
    from range [OF this] range [OF that] show ?thesis by simp
  qed
  have v3': "length q \<le> length w" if q: "q \<in> set ?Q" and w: "?walk w" "last w = last q"
    for q w
  proof -
    from q consider "q \<in> set rest" | n where "n \<in> set ?A" "q = p @ [n]" by auto
    then show ?thesis
    proof cases
      case 1
      then show ?thesis using v3 [of q w] w by simp
    next
      case 2
      have "\<not> length w \<le> length p"
      proof
        assume "length w \<le> length p"
        from v2 [OF w(1) this] w(2) 2 fresh [of n] show False by simp
      qed
      with 2 show ?thesis by simp
    qed
  qed
  have v6': "(\<exists>q \<in> set ?Q. last q = v) \<or>
      (v \<notin> exits \<and> (\<forall>x. step_ok adjacency bn be v x \<longrightarrow> x \<in> ?V))" if "v \<in> ?V" for v
  proof (cases "v \<in> set ?A")
    case True
    then have "p @ [v] \<in> set ?Q" by simp
    moreover have "last (p @ [v]) = v" by simp
    ultimately show ?thesis by blast
  next
    case False
    with that have "v \<in> V" by simp
    from v6 [OF this] consider "last p = v" | q where "q \<in> set rest" "last q = v"
      | "v \<notin> exits" "\<forall>x. step_ok adjacency bn be v x \<longrightarrow> x \<in> V"
      by (simp only: set_simps ball_simps bex_simps insert_iff) blast
    then show ?thesis
    proof cases
      case 1
      with nex succ show ?thesis by blast
    next
      case 2
      then have "q \<in> set ?Q" by simp
      with 2(2) show ?thesis by blast
    next
      case 3
      then show ?thesis by blast
    qed
  qed
  have v2': "last w \<in> ?V" if Q: "?Q \<noteq> []" and w: "?walk w" "length w \<le> length (hd ?Q)" for w
  proof (cases "length w \<le> length p")
    case True
    from v2 [OF w(1) this] show ?thesis by simp
  next
    case False
    from Q have hd: "hd ?Q \<in> set ?Q" by (rule hd_in_set)
    from range [OF hd] w(2) False have len: "length w = Suc (length p)"
      and hdlen: "length (hd ?Q) = Suc (length p)" by simp_all
    from ne(1) len have two: "2 \<le> length w" by (cases p) simp_all
    note b = walk_butlast [OF w(1) two]
    have lb: "length (butlast w) = length p" using len by simp
    from v2 [OF b(1)] lb have "last (butlast w) \<in> ?V" by simp
    from v6' [OF this] show ?thesis
    proof
      assume "\<exists>q \<in> set ?Q. last q = last (butlast w)"
      then obtain q where q: "q \<in> set ?Q" "last q = last (butlast w)" by blast
      from v3' [OF q(1) b(1)] q(2) lb have "length q \<le> length p" by simp
      moreover from sorted_hd_least [OF sorted' q(1)] hdlen have "Suc (length p) \<le> length q"
        by simp
      ultimately show ?thesis by simp
    next
      assume "last (butlast w) \<notin> exits \<and>
        (\<forall>x. step_ok adjacency bn be (last (butlast w)) x \<longrightarrow> x \<in> ?V)"
      with b(2) show ?thesis by blast
    qed
  qed
  show ?thesis
    unfolding shortest_queue_def
  proof (intro conjI)
    show "\<forall>q \<in> set ?Q. q \<noteq> []" using range by blast
    show "sorted (map length ?Q)" by (rule sorted')
    show "\<forall>q \<in> set ?Q. length q \<le> Suc (length (hd ?Q))" using bound' by blast
    show "?Q \<noteq> [] \<longrightarrow> (\<forall>w. ?walk w \<and> length w \<le> length (hd ?Q) \<longrightarrow> last w \<in> ?V)"
      using v2' by blast
    show "\<forall>q \<in> set ?Q. \<forall>w. ?walk w \<and> last w = last q \<longrightarrow> length q \<le> length w"
      using v3' by blast
    show "\<forall>v \<in> ?V. (\<exists>q \<in> set ?Q. last q = v) \<or>
        (v \<notin> exits \<and> (\<forall>x. step_ok adjacency bn be v x \<longrightarrow> x \<in> ?V))"
      using v6' by blast
  qed
qed

lemma shortest_queue_head:
  assumes inv: "shortest_queue adjacency exits bn be start V (p # rest)"
    and ex: "last p \<in> exits"
    and w: "walk adjacency bn be start w" "last w \<in> exits"
  shows "length p \<le> length w"
proof (rule ccontr)
  assume "\<not> length p \<le> length w"
  then have less: "length w < length p" by simp
  note inv' = inv [unfolded shortest_queue_def]
  from inv' have "\<forall>w. walk adjacency bn be start w \<and> length w \<le> length p \<longrightarrow> last w \<in> V"
    by simp
  with w(1) less have "last w \<in> V" by simp
  moreover from inv' have "\<forall>v \<in> V. (\<exists>q \<in> set (p # rest). last q = v) \<or>
      (v \<notin> exits \<and> (\<forall>x. step_ok adjacency bn be v x \<longrightarrow> x \<in> V))"
    by (elim conjE)
  ultimately obtain q where q: "q \<in> set (p # rest)" "last q = last w"
    using w(2) by blast
  from inv' have "\<forall>q \<in> set (p # rest). \<forall>w. walk adjacency bn be start w \<and> last w = last q \<longrightarrow>
      length q \<le> length w"
    by (elim conjE)
  from bspec [OF this q(1)] w(1) q(2) have "length q \<le> length w" by simp
  moreover from inv' have "sorted (map length (p # rest))" by (elim conjE)
  from sorted_hd_least [OF this q(1)] have "length p \<le> length q" by simp
  ultimately show False using less by simp
qed

lemma bfs_loop_shortest:
  "shortest_queue adjacency exits bn be start (fst vq) (snd vq) \<Longrightarrow>
   bfs_loop adjacency exits bn be vq = Inr (Some r) \<Longrightarrow>
   walk adjacency bn be start w \<Longrightarrow> last w \<in> exits \<Longrightarrow> length r \<le> length w"
proof (induction adjacency exits bn be vq rule: bfs_loop.induct)
  case (1 adjacency exits bn be V)
  then show ?case by simp
next
  case (2 adjacency exits bn be V p rest)
  from "2.prems"(1) have inv: "shortest_queue adjacency exits bn be start V (p # rest)"
    by simp
  show ?case
  proof (cases "last p \<in> exits")
    case True
    with "2.prems"(2) have "r = p" by simp
    with shortest_queue_head [OF inv True "2.prems"(3,4)] show ?thesis by simp
  next
    case False
    from "2.prems"(2) False obtain ns where nb: "neighbors adjacency (last p) = Inr ns"
      by (cases "neighbors adjacency (last p)") simp_all
    let ?vq = "(V \<union> set (accepted (last p) bn be ns V),
      rest @ map (\<lambda>n. p @ [n]) (accepted (last p) bn be ns V))"
    have ex: "expand p (last p) bn be ns (V, rest) = ?vq" by (rule expand_accepted)
    from "2.prems"(2) False nb have res: "bfs_loop adjacency exits bn be ?vq = Inr (Some r)"
      by (simp add: ex Let_def)
    from shortest_queue_step [OF inv False nb]
    have "shortest_queue adjacency exits bn be start (fst ?vq) (snd ?vq)" by simp
    from "2.IH" [OF refl False nb, unfolded ex, OF this res "2.prems"(3,4)]
    show ?thesis .
  qed
qed

lemma shortest_queue_init:
  "shortest_queue adjacency exits bn be start {start} [[start]]"
proof -
  have one: "last w \<in> {start}" if "walk adjacency bn be start w" "length w \<le> length [start]"
    for w
    using that by (cases w) (simp_all add: walk_def)
  have least: "length [start] \<le> length w" if "walk adjacency bn be start w" for w
    using that by (cases w) (simp_all add: walk_def)
  show ?thesis
    unfolding shortest_queue_def
  proof (intro conjI)
    show "\<forall>q \<in> set [[start]]. q \<noteq> []" by simp
    show "sorted (map length [[start]])" by simp
    show "\<forall>q \<in> set [[start]]. length q \<le> Suc (length (hd [[start]]))" by simp
    show "[[start]] \<noteq> [] \<longrightarrow> (\<forall>w. walk adjacency bn be start w \<and>
        length w \<le> length (hd [[start]]) \<longrightarrow> last w \<in> {start})"
      using one by simp
    show "\<forall>q \<in> set [[start]]. \<forall>w. walk adjacency bn be start w \<and> last w = last q \<longrightarrow>
        length q \<le> length w"
      using least by simp
    show "\<forall>v \<in> {start}. (\<exists>q \<in> set [[start]]. last q = v) \<or>
        (v \<notin> exits \<and> (\<forall>x. step_ok adjacency bn be v x \<longrightarrow> x \<in> {start}))"
      by simp
  qed
qed

lemma bfsEvacuate_sound:
  assumes "bfsEvacuate graph adjacency exits start blockedNodes blockedEdges = Inr (Some route)"
  shows "valid_route adjacency exits start blockedNodes blockedEdges route \<and> distinct route"
proof -
  from assms have start: "start \<notin> blockedNodes"
    and loop: "bfs_loop adjacency exits blockedNodes blockedEdges ({start}, [[start]])
      = Inr (Some route)"
    by (simp_all add: bfsEvacuate_def split: if_splits)
  have "sound_queue adjacency blockedNodes blockedEdges start
      (fst ({start}, [[start]])) (snd ({start}, [[start]]))"
    by (simp add: sound_queue_def walk_def)
  from bfs_loop_sound [OF this loop] start show ?thesis
    by (simp add: valid_route_walk)
qed

lemma bfsEvacuate_least:
  assumes "bfsEvacuate graph adjacency exits start blockedNodes blockedEdges = Inr (Some route)"
    and "valid_route adjacency exits start blockedNodes blockedEdges other"
  shows "length route \<le> length other"
proof -
  from assms(1) have
    loop: "bfs_loop adjacency exits blockedNodes blockedEdges ({start}, [[start]])
      = Inr (Some route)"
    by (simp add: bfsEvacuate_def split: if_splits)
  from assms(2) have other: "walk adjacency blockedNodes blockedEdges start other"
    "last other \<in> exits"
    by (simp_all add: valid_route_walk)
  have "shortest_queue adjacency exits blockedNodes blockedEdges start
      (fst ({start}, [[start]])) (snd ({start}, [[start]]))"
    using shortest_queue_init by simp
  from bfs_loop_shortest [OF this loop other] show ?thesis .
qed

lemma expand_same_blocked:
  "\<forall>x \<in> set ns. x \<in> bn \<longleftrightarrow> x \<in> bn' \<Longrightarrow>
   expand path u bn be ns vq = expand path u bn' be ns vq"
proof (induction ns arbitrary: vq)
  case Nil
  show ?case by (cases vq) simp
next
  case (Cons n ns)
  obtain V Q where vq: "vq = (V, Q)" by (cases vq)
  from Cons.prems have n: "n \<in> bn \<longleftrightarrow> n \<in> bn'"
    and ns: "\<forall>x \<in> set ns. x \<in> bn \<longleftrightarrow> x \<in> bn'" by simp_all
  show ?case using Cons.IH [OF ns] n by (simp add: vq)
qed

lemma bfs_loop_same_blocked:
  "\<forall>x \<in> listed adjacency. x \<in> bn \<longleftrightarrow> x \<in> bn' \<Longrightarrow>
   bfs_loop adjacency exits bn be vq = bfs_loop adjacency exits bn' be vq"
proof (induction adjacency exits bn be vq rule: bfs_loop.induct)
  case (1 adjacency exits bn be V)
  show ?case by simp
next
  case (2 adjacency exits bn be V p rest)
  show ?case
  proof (cases "last p \<in> exits")
    case True
    then show ?thesis by simp
  next
    case False
    show ?thesis
    proof (cases "neighbors adjacency (last p)")
      case (Inl e)
      with False show ?thesis by simp
    next
      case (Inr ns)
      from "2.prems" neighbors_listed [OF Inr]
      have "\<forall>x \<in> set ns. x \<in> bn \<longleftrightarrow> x \<in> bn'" by blast
      from expand_same_blocked [OF this]
      have ex: "expand p (last p) bn be ns (V, rest) = expand p (last p) bn' be ns (V, rest)" .
      from "2.IH" [OF refl False Inr "2.prems"] False Inr show ?thesis
        by (simp add: ex Let_def)
    qed
  qed
qed

lemma bfsEvacuate_same_blocked:
  assumes "start \<in> bn \<longleftrightarrow> start \<in> bn'"
    and "\<forall>x \<in> listed adjacency. x \<in> bn \<longleftrightarrow> x \<in> bn'"
  shows "bfsEvacuate graph adjacency exits start bn be
      = bfsEvacuate graph adjacency exits start bn' be"
proof -
  have "bfs_loop adjacency exits bn be ({start}, [[start]])
      = bfs_loop adjacency exits bn' be ({start}, [[start]])"
    by (rule bfs_loop_same_blocked [OF assms(2)])
  then show ?thesis
    unfolding bfsEvacuate_def using assms(1) by (simp del: bfs_loop.simps)
qed

lemma listed_known:
  assumes "store_consistent G"
  shows "listed (ADJACENCY G) \<subseteq> fmdom' (NODES G)"
proof
  fix x
  assume "x \<in> listed (ADJACENCY G)"
  then obtain ns where ns: "ns \<in> fmran' (ADJACENCY G)" "x \<in> set ns"
    by (auto simp: listed_def)
  then obtain k where k: "fmlookup (ADJACENCY G) k = Some ns" by (auto simp: fmran'_def ran_def)
  then have "k \<in> fmdom' (ADJACENCY G)" by (rule fmdom'I)
  moreover have "own_neighbors (ADJACENCY G) k = ns" using k by (simp add: own_neighbors_def)
  ultimately have "set ns \<subseteq> fmdom' (NODES G)"
    using assms unfolding store_consistent_def by blast
  with ns(2) show "x \<in> fmdom' (NODES G)" by blast
qed

lemma unknown_id_irrelevant:
  assumes "store_consistent G" and "nodeId \<notin> fmdom' (NODES G)"
  shows "bfsEvacuate graph (ADJACENCY G) (EXITS G) (START_NODE G) (insert nodeId bn) be
      = bfsEvacuate graph (ADJACENCY G) (EXITS G) (START_NODE G) bn be"
    and "bfsEvacuate graph (ADJACENCY G) (EXITS G) (START_NODE G) (bn - {nodeId}) be
      = bfsEvacuate graph (ADJACENCY G) (EXITS G) (START_NODE G) bn be"
proof -
  from assms have start: "nodeId \<noteq> START_NODE G" unfolding store_consistent_def by blast
  from listed_known [OF assms(1)] assms(2) have l: "nodeId \<notin> listed (ADJACENCY G)" by blast
  show "bfsEvacuate graph (ADJACENCY G) (EXITS G) (START_NODE G) (insert nodeId bn) be
      = bfsEvacuate graph (ADJACENCY G) (EXITS G) (START_NODE G) bn be"
    using start l by (intro bfsEvacuate_same_blocked) auto
  show "bfsEvacuate graph (ADJACENCY G) (EXITS G) (START_NODE G) (bn - {nodeId}) be
      = bfsEvacuate graph (ADJACENCY G) (EXITS G) (START_NODE G) bn be"
    using start l by (intro bfsEvacuate_same_blocked) auto
qed

lemma building_consistent: "store_consistent building"
  by code_simp





section \<open>Properties of the hazard state\<close>

lemma recalculate_fields [simp]:
  "hazardNodes (state_of (recalculate G s)) = hazardNodes s"
  "hazardEdges (state_of (recalculate G s)) = hazardEdges s"
  "hazardTypes (state_of (recalculate G s)) = hazardTypes s"
  "selectedHazard (state_of (recalculate G s)) = selectedHazard s"
  by (simp_all add: recalculate_def Let_def split: sum.splits)

lemma applyHazard_fields [simp]:
  "hazardNodes (state_of (applyHazard G n k s)) = insert n (hazardNodes s)"
  "hazardEdges (state_of (applyHazard G n k s)) = hazardEdges s"
  "hazardTypes (state_of (applyHazard G n k s)) = set_property (hazardTypes s) n k"
  by (simp_all add: applyHazard_def)

lemma removeHazard_fields [simp]:
  "hazardNodes (state_of (removeHazard G n s)) = hazardNodes s - {n}"
  "hazardEdges (state_of (removeHazard G n s)) = hazardEdges s"
  "hazardTypes (state_of (removeHazard G n s)) = (hazardTypes s)(n := None)"
  by (simp_all add: removeHazard_def Let_def split: property.splits)

lemma resetAll_fields [simp]:
  "hazardNodes (state_of (resetAll G s)) = {}"
  "hazardEdges (state_of (resetAll G s)) = {}"
  "hazardTypes (state_of (resetAll G s)) = Map.empty"
  by (simp_all add: resetAll_def)

lemma fold_block_node_fields [simp]:
  "hazardNodes (fold block_node ns s) = hazardNodes s \<union> set ns"
  "hazardEdges (fold block_node ns s) = hazardEdges s"
  by (induction ns arbitrary: s) (auto simp: block_node_def)

lemma fold_block_node_kinds:
  "''__proto__'' \<notin> set ns \<Longrightarrow>
   dom (hazardTypes (fold block_node ns s)) = dom (hazardTypes s) \<union> set ns"
  by (induction ns arbitrary: s) (auto simp: block_node_def set_property_def)

lemma fold_block_edge_fields [simp]:
  "hazardNodes (fold block_edge es s) = hazardNodes s"
  "hazardTypes (fold block_edge es s) = hazardTypes s"
  by (induction es arbitrary: s) (auto simp: block_edge_def)

text \<open>
  Where the name \<^verbatim>\<open>__proto__\<close> is not involved, the operations keep the recorded kinds
  and the blocked ids in step, also when they raise.
\<close>

lemma kinds_match_applyHazard:
  "kinds_match s \<Longrightarrow> n \<noteq> ''__proto__'' \<Longrightarrow> kinds_match (state_of (applyHazard G n k s))"
  by (auto simp: kinds_match_def set_property_def)

lemma kinds_match_removeHazard: "kinds_match s \<Longrightarrow> kinds_match (state_of (removeHazard G n s))"
  by (auto simp: kinds_match_def)

lemma kinds_match_toggleHazard:
  "kinds_match s \<Longrightarrow> n \<noteq> ''__proto__'' \<Longrightarrow> kinds_match (state_of (toggleHazard G n s))"
  by (simp add: toggleHazard_def kinds_match_applyHazard kinds_match_removeHazard)

lemma kinds_match_resetAll: "kinds_match (state_of (resetAll G s))"
  by (simp add: kinds_match_def)

lemma toggleHazard_keeps_start_clear:
  "START_NODE G \<notin> hazardNodes s \<Longrightarrow>
   START_NODE G \<notin> hazardNodes (state_of (toggleHazard G n s))"
  by (auto simp: toggleHazard_def)

lemma fold_toggleHazard_keeps_start_clear:
  "START_NODE G \<notin> hazardNodes s \<Longrightarrow>
   START_NODE G \<notin> hazardNodes (fold (\<lambda>n s. state_of (toggleHazard G n s)) ids s)"
  by (induction ids arbitrary: s) (simp_all add: toggleHazard_keeps_start_clear)

text \<open>
  An id that the store does not know is neither the start node nor in any neighbour
  list, so blocking or unblocking it leaves the route of the search as it was.
\<close>

lemma absent_id_same_route:
  assumes "store_consistent G" and "nodeId \<notin> fmdom' (NODES G)"
  shows "route_under G (state_of (applyHazard G nodeId kind s)) = route_under G s"
    and "route_under G (state_of (removeHazard G nodeId s)) = route_under G s"
    and "route_under G (state_of (toggleHazard G nodeId s)) = route_under G s"
proof -
  note irr = unknown_id_irrelevant [OF assms]
  show a: "route_under G (state_of (applyHazard G nodeId k s)) = route_under G s" for k
    by (simp add: route_under_def irr)
  show r: "route_under G (state_of (removeHazard G nodeId s)) = route_under G s"
    by (simp add: route_under_def irr)
  show "route_under G (state_of (toggleHazard G nodeId s)) = route_under G s"
    using a r by (simp add: toggleHazard_def)
qed

section \<open>Properties of the alternative routes\<close>








lemmas eval_search = bfsEvacuate_def neighbors_def get_property_def proto_members_def
  fmlookup_of_list edgeKey_def


text \<open>
  Where the search pops a node named like an inherited member, the lookup of its
  neighbours raises: the first search returns before it gets there, the search of the
  alternatives does not.
\<close>

lemma named_like_member_raises:
  "bfsEvacuate None named_like_member {''X''} ''S'' {} {} = Inr (Some [''S'', ''A'', ''X''])"
  "findAlternativePaths named_like_member {''X''} ''S'' {} {} 3 = Inl TypeError"
  by (simp_all add: findAlternativePaths_def alt_loop.simps interior_def eval_search
      named_like_member_def)


lemma building_eval:
  "bfsEvacuate g building_adjacency (EXITS building) ''Control'' {} {}
     = Inr (Some [''Control'', ''Hall'', ''ExitA''])"
  "bfsEvacuate g building_adjacency (EXITS building) ''Control'' {''ExitA''}
       {edgeKey ''ExitB'' ''Hall''}
     = Inr (Some [''Control'', ''Hall'', ''StairG'', ''StairB'', ''Parking'', ''EmergencyExit''])"
  by (simp_all add: eval_search building_def building_adjacency_def)

lemma building_long_route:
  "valid_route building_adjacency (EXITS building) ''Control'' {} {}
     [''Control'', ''Hall'', ''StairG'', ''StairB'', ''Parking'', ''EmergencyExit'']"
  by (simp add: valid_route_def building_def building_adjacency_def own_neighbors_def
      fmlookup_of_list)

section \<open>Claims\<close>

text \<open>
  C9. For every pair of node identifiers \<open>a\<close> and \<open>b\<close>, \<open>edgeKey a b\<close> equals
  \<open>edgeKey b a\<close>: the canonical edge key is symmetric in its arguments.
\<close>

theorem edgeKey_symmetric: "edgeKey a b = edgeKey b a"
  by (auto simp: edgeKey_def)

text \<open>
  C5. Whatever the graph, the exit set and the blocked edges, a start node that is in
  \<open>blockedNodes\<close> makes \<open>bfsEvacuate\<close> return no route, also when the start node is
  itself an exit.
\<close>

theorem bfsEvacuate_blocked_start:
  "start \<in> blockedNodes \<Longrightarrow>
   bfsEvacuate graph adjacency exits start blockedNodes blockedEdges = Inr None"
  by (simp add: bfsEvacuate_def)

theorem bfsEvacuate_blocked_start_witness:
  "''ExitA'' \<in> {''ExitA'', ''Hall''} \<and> ''ExitA'' \<in> EXITS building \<and>
   bfsEvacuate None building_adjacency (EXITS building) ''ExitA'' {''ExitA'', ''Hall''} {}
     = Inr None"
  using bfsEvacuate_blocked_start [of "''ExitA''" "{''ExitA'', ''Hall''}" None
      building_adjacency "EXITS building" "{}"]
  by (simp add: building_def)

text \<open>
  C10. When the start node is an exit and is not blocked, \<open>bfsEvacuate\<close> returns the
  route that consists of the start node alone, whatever the adjacency and the blocked
  edges are.
\<close>

theorem bfsEvacuate_start_is_exit:
  "start \<in> exits \<Longrightarrow> start \<notin> blockedNodes \<Longrightarrow>
   bfsEvacuate graph adjacency exits start blockedNodes blockedEdges = Inr (Some [start])"
  by (simp add: bfsEvacuate_def)

theorem bfsEvacuate_start_is_exit_witness:
  "''ExitB'' \<in> EXITS building \<and> ''ExitB'' \<notin> {''Hall''} \<and>
   bfsEvacuate None building_adjacency (EXITS building) ''ExitB'' {''Hall''}
     {edgeKey ''ExitB'' ''Hall''} = Inr (Some [''ExitB''])"
  using bfsEvacuate_start_is_exit [of "''ExitB''" "EXITS building" "{''Hall''}" None
      building_adjacency "{edgeKey ''ExitB'' ''Hall''}"]
  by (simp add: building_def)

text \<open>
  C3, as the specification states it: \<open>applyHazard\<close> on the start node leaves the hazard
  state unchanged. It does not: on the building, in the initial state, the start node
  \<open>Control\<close> ends up in \<open>hazardNodes\<close> with its kind recorded.
\<close>

theorem applyHazard_start_counterexample:
  "hazardNodes (state_of (applyHazard building (START_NODE building) ''fire'' initial_state))
     \<noteq> hazardNodes initial_state \<and>
   hazardTypes (state_of (applyHazard building (START_NODE building) ''fire'' initial_state))
     (START_NODE building) = Some ''fire''"
  by (simp add: set_property_def initial_state_def building_def)

text \<open>
  C3, amended. The start node is rejected by \<open>toggleHazard\<close>, the only caller of
  \<open>applyHazard\<close>: with the start node it returns the state as it was, before
  \<open>applyHazard\<close> is reached. \<open>applyHazard\<close> itself has no check: for every node id, the
  start node included, it adds the id to \<open>hazardNodes\<close> and leaves \<open>hazardEdges\<close> alone,
  and for every id other than \<^verbatim>\<open>__proto__\<close> it records the kind.
\<close>

theorem applyHazard_unguarded:
  "toggleHazard G (START_NODE G) s = Done s \<and>
   hazardNodes (state_of (applyHazard G nodeId kind s)) = insert nodeId (hazardNodes s) \<and>
   hazardEdges (state_of (applyHazard G nodeId kind s)) = hazardEdges s \<and>
   (nodeId \<noteq> ''__proto__'' \<longrightarrow>
      hazardTypes (state_of (applyHazard G nodeId kind s)) = (hazardTypes s)(nodeId \<mapsto> kind))"
  by (simp add: toggleHazard_def set_property_def)

theorem applyHazard_unguarded_witness:
  "''Control'' = START_NODE building \<and> ''Control'' \<noteq> ''__proto__'' \<and>
   toggleHazard building ''Control'' initial_state = Done initial_state \<and>
   hazardNodes (state_of (applyHazard building ''Control'' ''smoke'' initial_state))
     = {''Control''} \<and>
   hazardEdges (state_of (applyHazard building ''Control'' ''smoke'' initial_state)) = {} \<and>
   hazardTypes (state_of (applyHazard building ''Control'' ''smoke'' initial_state))
     = [''Control'' \<mapsto> ''smoke'']"
proof -
  have start: "START_NODE building = ''Control''" by (simp add: building_def)
  have init: "hazardNodes initial_state = {}" "hazardTypes initial_state = Map.empty"
    "hazardEdges initial_state = {}"
    by (simp_all add: initial_state_def)
  have name: "''Control'' \<noteq> ''__proto__''" by simp
  from applyHazard_unguarded [of building initial_state "''Control''" "''smoke''"] name
  show ?thesis by (simp add: start init)
qed

text \<open>
  C6. \<open>toggleHazard\<close> on the start node returns the state unchanged, so no sequence of
  toggles from the initial state ever puts the start node into \<open>hazardNodes\<close>.
\<close>

theorem toggleHazard_start_unchanged:
  "toggleHazard G (START_NODE G) s = Done s \<and>
   START_NODE G \<notin> hazardNodes (fold (\<lambda>n s. state_of (toggleHazard G n s)) ids initial_state)"
proof
  show "toggleHazard G (START_NODE G) s = Done s" by (simp add: toggleHazard_def)
  have "START_NODE G \<notin> hazardNodes initial_state" by (simp add: initial_state_def)
  then show "START_NODE G \<notin>
      hazardNodes (fold (\<lambda>n s. state_of (toggleHazard G n s)) ids initial_state)"
    by (rule fold_toggleHazard_keeps_start_clear)
qed

text \<open>
  C7. The claim is that the ids with a recorded kind and the blocked ids stay the same
  set under every operation. The code breaks it for the id \<^verbatim>\<open>__proto__\<close>: from the
  initial state, where the invariant holds, \<open>applyHazard\<close> (and \<open>toggleHazard\<close>, which
  calls it) adds the id to \<open>hazardNodes\<close>, while the assignment to
  \<^verbatim>\<open>state.hazardTypes\<close> records nothing.
\<close>

theorem applyHazard_proto_unrecorded:
  "kinds_match initial_state \<and>
   hazardNodes (state_of (applyHazard building ''__proto__'' ''fire'' initial_state))
     = {''__proto__''} \<and>
   hazardTypes (state_of (applyHazard building ''__proto__'' ''fire'' initial_state))
     = Map.empty \<and>
   \<not> kinds_match (state_of (applyHazard building ''__proto__'' ''fire'' initial_state)) \<and>
   \<not> kinds_match (state_of (toggleHazard building ''__proto__'' initial_state))"
  by (simp add: kinds_match_def toggleHazard_def set_property_def initial_state_def
      building_def)

text \<open>
  C8. The claim is that an operation on an id the store does not know never halts with
  an error. The code halts for ids named like an inherited member: \<open>removeHazard\<close> on
  \<^verbatim>\<open>constructor\<close>, which is no node of the building, raises in the initial state; and
  a second \<open>toggleHazard\<close> on \<^verbatim>\<open>__proto__\<close> raises, since the first one recorded no kind.
\<close>

theorem removeHazard_inherited_raises:
  "''constructor'' \<notin> fmdom' (NODES building) \<and>
   removeHazard building ''constructor'' initial_state = Raised TypeError initial_state \<and>
   ''__proto__'' \<notin> fmdom' (NODES building) \<and>
   raises (toggleHazard building ''__proto__''
     (state_of (toggleHazard building ''__proto__'' initial_state)))"
proof -
  have "''constructor'' \<notin> fmdom' (NODES building)" "''__proto__'' \<notin> fmdom' (NODES building)"
    by (simp_all add: building_def building_nodes_def)
  moreover have "removeHazard building ''constructor'' initial_state
      = Raised TypeError initial_state"
    by (simp add: removeHazard_def get_property_def proto_members_def initial_state_def)
  moreover have "raises (toggleHazard building ''__proto__''
      (state_of (toggleHazard building ''__proto__'' initial_state)))"
    by (simp add: toggleHazard_def removeHazard_def get_property_def proto_members_def
        set_property_def initial_state_def building_def)
  ultimately show ?thesis by simp
qed

text \<open>
  C2. A route returned by \<open>bfsEvacuate\<close> starts at the start node, ends in an exit,
  repeats no node, joins every consecutive pair by an adjacency whose edge key is not
  blocked, and passes through no blocked node.
\<close>

theorem bfsEvacuate_route_valid:
  assumes "bfsEvacuate graph adjacency exits start blockedNodes blockedEdges = Inr (Some route)"
  shows "valid_route adjacency exits start blockedNodes blockedEdges route \<and> distinct route"
  using assms by (rule bfsEvacuate_sound)

theorem bfsEvacuate_route_valid_witness:
  "bfsEvacuate (Some building_nodes) building_adjacency (EXITS building) ''Control''
     {''ExitA''} {edgeKey ''ExitB'' ''Hall''}
     = Inr (Some [''Control'', ''Hall'', ''StairG'', ''StairB'', ''Parking'', ''EmergencyExit'']) \<and>
   valid_route building_adjacency (EXITS building) ''Control'' {''ExitA''}
     {edgeKey ''ExitB'' ''Hall''}
     [''Control'', ''Hall'', ''StairG'', ''StairB'', ''Parking'', ''EmergencyExit''] \<and>
   distinct [''Control'', ''Hall'', ''StairG'', ''StairB'', ''Parking'', ''EmergencyExit'']"
  using building_eval(2) [of "Some building_nodes"]
    bfsEvacuate_route_valid [OF building_eval(2) [of "Some building_nodes"]]
  by blast

text \<open>
  C1. A route returned by \<open>bfsEvacuate\<close> has the least number of edges among all valid
  routes from the start node to an exit under the same hazards (valid routes that repeat
  a node included).
\<close>

theorem bfsEvacuate_shortest:
  assumes "bfsEvacuate graph adjacency exits start blockedNodes blockedEdges = Inr (Some route)"
    and "valid_route adjacency exits start blockedNodes blockedEdges other"
  shows "length route \<le> length other \<and> hops route \<le> hops other"
  using bfsEvacuate_least [OF assms] by (simp add: hops_def diff_le_mono)

theorem bfsEvacuate_shortest_witness:
  "bfsEvacuate None building_adjacency (EXITS building) ''Control'' {} {}
     = Inr (Some [''Control'', ''Hall'', ''ExitA'']) \<and>
   valid_route building_adjacency (EXITS building) ''Control'' {} {}
     [''Control'', ''Hall'', ''StairG'', ''StairB'', ''Parking'', ''EmergencyExit''] \<and>
   length [''Control'', ''Hall'', ''ExitA''] \<le>
     length [''Control'', ''Hall'', ''StairG'', ''StairB'', ''Parking'', ''EmergencyExit''] \<and>
   hops [''Control'', ''Hall'', ''ExitA''] \<le>
     hops [''Control'', ''Hall'', ''StairG'', ''StairB'', ''Parking'', ''EmergencyExit'']"
  using building_eval(1) [of None] building_long_route
    bfsEvacuate_shortest [OF building_eval(1) [of None] building_long_route]
  by blast



end
